theory Spec2Isabelle
  imports Main "HOL-Library.Word"
begin

section \<open>The standard containers used by LRUCache\<close>

text \<open>
  The class keeps a \<^verbatim>\<open>std::list< std::pair<TKey, TValue> >\<close> and a
  \<^verbatim>\<open>std::unordered_map<TKey, iterator>\<close> whose values are iterators into that list.
  A list iterator stays valid until its own node is erased, so a node is modelled with an
  identity (its address) next to the pair it stores, and an iterator is either the address
  of a node or the past-the-end position. Using an iterator that refers to no node of the
  list, and reading or removing the last element of an empty list, have undefined
  behaviour in C++; the model makes each of them an error value.
\<close>

datatype error = InvalidIterator | EmptyContainer

datatype iterator = Node nat | End

type_synonym ('k, 'v) node = "nat \<times> ('k \<times> 'v)"

text \<open>The address given to a newly allocated node: one that no node of the list has.\<close>

fun new_addr :: "('k, 'v) node list \<Rightarrow> nat" where
  "new_addr [] = 0"
| "new_addr (n # ns) = max (Suc (fst n)) (new_addr ns)"

definition list_begin :: "('k, 'v) node list \<Rightarrow> iterator" where
  "list_begin xs = (case xs of [] \<Rightarrow> End | n # _ \<Rightarrow> Node (fst n))"

definition push_front :: "'k \<times> 'v \<Rightarrow> ('k, 'v) node list \<Rightarrow> ('k, 'v) node list" where
  "push_front kv xs = (new_addr xs, kv) # xs"

definition deref :: "iterator \<Rightarrow> ('k, 'v) node list \<Rightarrow> error + 'k \<times> 'v" where
  "deref it xs =
     (case it of
        End \<Rightarrow> Inl InvalidIterator
      | Node p \<Rightarrow> (case map_of xs p of None \<Rightarrow> Inl InvalidIterator | Some kv \<Rightarrow> Inr kv))"

definition erase :: "iterator \<Rightarrow> ('k, 'v) node list \<Rightarrow> error + ('k, 'v) node list" where
  "erase it xs =
     (case it of
        End \<Rightarrow> Inl InvalidIterator
      | Node p \<Rightarrow>
          (case map_of xs p of
             None \<Rightarrow> Inl InvalidIterator
           | Some _ \<Rightarrow> Inr (filter (\<lambda>n. fst n \<noteq> p) xs)))"

definition list_front :: "('k, 'v) node list \<Rightarrow> error + 'k \<times> 'v" where
  "list_front xs = (case xs of [] \<Rightarrow> Inl EmptyContainer | n # _ \<Rightarrow> Inr (snd n))"

definition list_back :: "('k, 'v) node list \<Rightarrow> error + 'k \<times> 'v" where
  "list_back xs = (if xs = [] then Inl EmptyContainer else Inr (snd (last xs)))"

definition pop_back :: "('k, 'v) node list \<Rightarrow> error + ('k, 'v) node list" where
  "pop_back xs = (if xs = [] then Inl EmptyContainer else Inr (butlast xs))"

text \<open>\<^verbatim>\<open>unordered_map::insert\<close> leaves the map as it is when the key is already there.\<close>

definition map_insert :: "'k \<Rightarrow> iterator \<Rightarrow> ('k \<rightharpoonup> iterator) \<Rightarrow> ('k \<rightharpoonup> iterator)" where
  "map_insert k it m = (case m k of None \<Rightarrow> m(k \<mapsto> it) | Some _ \<Rightarrow> m)"

section \<open>LRUCache (src/LRUCache.h)\<close>

text \<open>
  The members of the class. \<^verbatim>\<open>size_type\<close> values are natural numbers (a list cannot
  hold more nodes than \<^verbatim>\<open>size_t\<close> counts); the four \<^verbatim>\<open>unsigned long long\<close>
  counters are 64-bit words, so that \<^verbatim>\<open>++\<close> wraps as it does in C++. The fields
  \<open>max_size\<close>, \<open>cache_hits\<close>, \<open>cache_misses\<close>, \<open>update_count\<close> and \<open>bounce_count\<close>
  are at the same time the accessors of the same names.
\<close>

record ('k, 'v) LRUCache =
  max_size :: nat
  container :: "('k, 'v) node list"
  lookupMap :: "'k \<rightharpoonup> iterator"
  cache_hits :: "64 word"
  cache_misses :: "64 word"
  update_count :: "64 word"
  bounce_count :: "64 word"

definition LRUCache :: "nat \<Rightarrow> ('k, 'v) LRUCache" where
  "LRUCache sz =
     \<lparr>max_size = sz, container = [], lookupMap = Map.empty,
      cache_hits = 0, cache_misses = 0, update_count = 0, bounce_count = 0\<rparr>"

definition begin_c :: "('k, 'v) LRUCache \<Rightarrow> iterator" where
  "begin_c c = list_begin (container c)"

definition end_c :: "('k, 'v) LRUCache \<Rightarrow> iterator" where
  "end_c c = End"

definition front_c :: "('k, 'v) LRUCache \<Rightarrow> error + 'k \<times> 'v" where
  "front_c c = list_front (container c)"

definition back_c :: "('k, 'v) LRUCache \<Rightarrow> error + 'k \<times> 'v" where
  "back_c c = list_back (container c)"

definition empty_c :: "('k, 'v) LRUCache \<Rightarrow> bool" where
  "empty_c c = (container c = [])"

definition size_c :: "('k, 'v) LRUCache \<Rightarrow> nat" where
  "size_c c = length (container c)"

definition get :: "'k \<Rightarrow> ('k, 'v) LRUCache \<Rightarrow> error + iterator \<times> ('k, 'v) LRUCache" where
  "get key c =
     (case lookupMap c key of
        None \<Rightarrow> Inr (end_c c, c\<lparr>cache_misses := cache_misses c + 1\<rparr>)
      | Some containerPos \<Rightarrow>
          (let c1 = c\<lparr>cache_hits := cache_hits c + 1\<rparr> in
           case deref containerPos (container c1) of
             Inl e \<Rightarrow> Inl e
           | Inr existing \<Rightarrow>
               (case erase containerPos (container c1) of
                  Inl e \<Rightarrow> Inl e
                | Inr xs \<Rightarrow>
                    (let c2 = c1\<lparr>container := push_front existing xs\<rparr>;
                         c3 = c2\<lparr>lookupMap := (lookupMap c2)(key \<mapsto> begin_c c2)\<rparr>
                     in Inr (begin_c c3, c3)))))"

definition peek :: "'k \<Rightarrow> ('k, 'v) LRUCache \<Rightarrow> iterator" where
  "peek key c = (case lookupMap c key of None \<Rightarrow> end_c c | Some it \<Rightarrow> it)"

definition put :: "'k \<Rightarrow> 'v \<Rightarrow> ('k, 'v) LRUCache \<Rightarrow> error + ('k, 'v) LRUCache" where
  "put key val c =
     (case lookupMap c key of
        None \<Rightarrow>
          (case (if size_c c = max_size c then
                   (let c1 = c\<lparr>bounce_count := bounce_count c + 1\<rparr> in
                    case back_c c1 of
                      Inl e \<Rightarrow> Inl e
                    | Inr oldest \<Rightarrow>
                        (let c2 = c1\<lparr>lookupMap := (lookupMap c1)(fst oldest := None)\<rparr> in
                         case pop_back (container c2) of
                           Inl e \<Rightarrow> Inl e
                         | Inr xs \<Rightarrow> Inr (c2\<lparr>container := xs\<rparr>)))
                 else Inr c) of
             Inl e \<Rightarrow> Inl e
           | Inr c3 \<Rightarrow>
               (let c4 = c3\<lparr>container := push_front (key, val) (container c3)\<rparr>
                in Inr (c4\<lparr>lookupMap := map_insert key (begin_c c4) (lookupMap c4)\<rparr>)))
      | Some it \<Rightarrow>
          (let c1 = c\<lparr>update_count := update_count c + 1\<rparr> in
           case erase it (container c1) of
             Inl e \<Rightarrow> Inl e
           | Inr xs \<Rightarrow>
               (let c2 = c1\<lparr>container := push_front (key, val) xs\<rparr>
                in Inr (c2\<lparr>lookupMap := (lookupMap c2)(key \<mapsto> begin_c c2)\<rparr>))))"

definition clear :: "('k, 'v) LRUCache \<Rightarrow> ('k, 'v) LRUCache" where
  "clear c = c\<lparr>container := [], lookupMap := Map.empty\<rparr>"

definition is_cached :: "'k \<Rightarrow> ('k, 'v) LRUCache \<Rightarrow> bool" where
  "is_cached key c = (lookupMap c key \<noteq> None)"


section \<open>LRUCache without statistics (src/unnamed/part 000)\<close>

text \<open>
  The second source file holds the same class without the four counters. Its members and
  functions carry the suffix \<open>_p0\<close>.
\<close>

record ('k, 'v) LRUCache_p0 =
  max_size_p0 :: nat
  container_p0 :: "('k, 'v) node list"
  lookupMap_p0 :: "'k \<rightharpoonup> iterator"

definition LRUCache_p0 :: "nat \<Rightarrow> ('k, 'v) LRUCache_p0" where
  "LRUCache_p0 sz = \<lparr>max_size_p0 = sz, container_p0 = [], lookupMap_p0 = Map.empty\<rparr>"

definition begin_p0 :: "('k, 'v) LRUCache_p0 \<Rightarrow> iterator" where
  "begin_p0 c = list_begin (container_p0 c)"

definition end_p0 :: "('k, 'v) LRUCache_p0 \<Rightarrow> iterator" where
  "end_p0 c = End"

definition front_p0 :: "('k, 'v) LRUCache_p0 \<Rightarrow> error + 'k \<times> 'v" where
  "front_p0 c = list_front (container_p0 c)"

definition back_p0 :: "('k, 'v) LRUCache_p0 \<Rightarrow> error + 'k \<times> 'v" where
  "back_p0 c = list_back (container_p0 c)"

definition empty_p0 :: "('k, 'v) LRUCache_p0 \<Rightarrow> bool" where
  "empty_p0 c = (container_p0 c = [])"

definition size_p0 :: "('k, 'v) LRUCache_p0 \<Rightarrow> nat" where
  "size_p0 c = length (container_p0 c)"

definition get_p0 ::
  "'k \<Rightarrow> ('k, 'v) LRUCache_p0 \<Rightarrow> error + iterator \<times> ('k, 'v) LRUCache_p0" where
  "get_p0 key c =
     (case lookupMap_p0 c key of
        None \<Rightarrow> Inr (end_p0 c, c)
      | Some containerPos \<Rightarrow>
          (case deref containerPos (container_p0 c) of
             Inl e \<Rightarrow> Inl e
           | Inr existing \<Rightarrow>
               (case erase containerPos (container_p0 c) of
                  Inl e \<Rightarrow> Inl e
                | Inr xs \<Rightarrow>
                    (let c2 = c\<lparr>container_p0 := push_front existing xs\<rparr>;
                         c3 = c2\<lparr>lookupMap_p0 := (lookupMap_p0 c2)(key \<mapsto> begin_p0 c2)\<rparr>
                     in Inr (begin_p0 c3, c3)))))"

definition peek_p0 :: "'k \<Rightarrow> ('k, 'v) LRUCache_p0 \<Rightarrow> iterator" where
  "peek_p0 key c = (case lookupMap_p0 c key of None \<Rightarrow> end_p0 c | Some it \<Rightarrow> it)"

definition put_p0 :: "'k \<Rightarrow> 'v \<Rightarrow> ('k, 'v) LRUCache_p0 \<Rightarrow> error + ('k, 'v) LRUCache_p0" where
  "put_p0 key val c =
     (case lookupMap_p0 c key of
        None \<Rightarrow>
          (case (if size_p0 c = max_size_p0 c then
                   (case back_p0 c of
                      Inl e \<Rightarrow> Inl e
                    | Inr oldest \<Rightarrow>
                        (let c2 = c\<lparr>lookupMap_p0 := (lookupMap_p0 c)(fst oldest := None)\<rparr> in
                         case pop_back (container_p0 c2) of
                           Inl e \<Rightarrow> Inl e
                         | Inr xs \<Rightarrow> Inr (c2\<lparr>container_p0 := xs\<rparr>)))
                 else Inr c) of
             Inl e \<Rightarrow> Inl e
           | Inr c3 \<Rightarrow>
               (let c4 = c3\<lparr>container_p0 := push_front (key, val) (container_p0 c3)\<rparr>
                in Inr (c4\<lparr>lookupMap_p0 := map_insert key (begin_p0 c4) (lookupMap_p0 c4)\<rparr>)))
      | Some it \<Rightarrow>
          (case erase it (container_p0 c) of
             Inl e \<Rightarrow> Inl e
           | Inr xs \<Rightarrow>
               (let c2 = c\<lparr>container_p0 := push_front (key, val) xs\<rparr>
                in Inr (c2\<lparr>lookupMap_p0 := (lookupMap_p0 c2)(key \<mapsto> begin_p0 c2)\<rparr>))))"

definition clear_p0 :: "('k, 'v) LRUCache_p0 \<Rightarrow> ('k, 'v) LRUCache_p0" where
  "clear_p0 c = c\<lparr>container_p0 := [], lookupMap_p0 := Map.empty\<rparr>"

definition is_cached_p0 :: "'k \<Rightarrow> ('k, 'v) LRUCache_p0 \<Rightarrow> bool" where
  "is_cached_p0 key c = (lookupMap_p0 c key \<noteq> None)"

section \<open>Sequences of calls\<close>

text \<open>
  A caller's use of a cache is a list of calls of the public functions. A call returns an
  iterator, a boolean or nothing; a call with undefined behaviour ends the run with the
  error, and nothing is known of the object after it.
\<close>

datatype ('k, 'v) call = Get 'k | Put 'k 'v | Peek 'k | Is_cached 'k | Clear

datatype return = RIter iterator | RBool bool | RVoid

fun step :: "('k, 'v) call \<Rightarrow> ('k, 'v) LRUCache \<Rightarrow> error + return \<times> ('k, 'v) LRUCache" where
  "step (Get key) c = (case get key c of Inl e \<Rightarrow> Inl e | Inr (it, c') \<Rightarrow> Inr (RIter it, c'))"
| "step (Put key val) c = (case put key val c of Inl e \<Rightarrow> Inl e | Inr c' \<Rightarrow> Inr (RVoid, c'))"
| "step (Peek key) c = Inr (RIter (peek key c), c)"
| "step (Is_cached key) c = Inr (RBool (is_cached key c), c)"
| "step Clear c = Inr (RVoid, clear c)"

fun run :: "('k, 'v) call list \<Rightarrow> ('k, 'v) LRUCache \<Rightarrow> error + return list \<times> ('k, 'v) LRUCache" where
  "run [] c = Inr ([], c)"
| "run (x # xs) c =
     (case step x c of
        Inl e \<Rightarrow> Inl e
      | Inr (r, c') \<Rightarrow>
          (case run xs c' of Inl e \<Rightarrow> Inl e | Inr (rs, c'') \<Rightarrow> Inr (r # rs, c'')))"

fun step_p0 ::
  "('k, 'v) call \<Rightarrow> ('k, 'v) LRUCache_p0 \<Rightarrow> error + return \<times> ('k, 'v) LRUCache_p0" where
  "step_p0 (Get key) c =
     (case get_p0 key c of Inl e \<Rightarrow> Inl e | Inr (it, c') \<Rightarrow> Inr (RIter it, c'))"
| "step_p0 (Put key val) c =
     (case put_p0 key val c of Inl e \<Rightarrow> Inl e | Inr c' \<Rightarrow> Inr (RVoid, c'))"
| "step_p0 (Peek key) c = Inr (RIter (peek_p0 key c), c)"
| "step_p0 (Is_cached key) c = Inr (RBool (is_cached_p0 key c), c)"
| "step_p0 Clear c = Inr (RVoid, clear_p0 c)"

fun run_p0 ::
  "('k, 'v) call list \<Rightarrow> ('k, 'v) LRUCache_p0 \<Rightarrow> error + return list \<times> ('k, 'v) LRUCache_p0" where
  "run_p0 [] c = Inr ([], c)"
| "run_p0 (x # xs) c =
     (case step_p0 x c of
        Inl e \<Rightarrow> Inl e
      | Inr (r, c') \<Rightarrow>
          (case run_p0 xs c' of Inl e \<Rightarrow> Inl e | Inr (rs, c'') \<Rightarrow> Inr (r # rs, c'')))"

text \<open>A list of puts, as in the eviction scenario: each pair is put in turn.\<close>

fun puts :: "('k \<times> 'v) list \<Rightarrow> ('k, 'v) LRUCache \<Rightarrow> error + ('k, 'v) LRUCache" where
  "puts [] c = Inr c"
| "puts (kv # kvs) c =
     (case put (fst kv) (snd kv) c of Inl e \<Rightarrow> Inl e | Inr c' \<Rightarrow> puts kvs c')"

text \<open>The calls of the two \<^verbatim>\<open>const\<close> lookups.\<close>

fun is_query :: "('k, 'v) call \<Rightarrow> bool" where
  "is_query (Peek _) = True"
| "is_query (Is_cached _) = True"
| "is_query _ = False"

text \<open>What the statistics-free class can see of the class with statistics.\<close>

definition forget_stats :: "('k, 'v) LRUCache \<Rightarrow> ('k, 'v) LRUCache_p0" where
  "forget_stats c =
     \<lparr>max_size_p0 = max_size c, container_p0 = container c, lookupMap_p0 = lookupMap c\<rparr>"

section \<open>The state invariant\<close>

text \<open>
  \<open>entries\<close> is the sequence a traversal from \<^verbatim>\<open>begin()\<close> to \<^verbatim>\<open>end()\<close> yields,
  most recently used first. \<open>index_of\<close> is the index that locates every node of a list
  under its key. A cache is well formed when no two nodes share an address, no two
  entries share a key, and the lookup map is exactly the index of the list.
\<close>

definition entries :: "('k, 'v) LRUCache \<Rightarrow> ('k \<times> 'v) list" where
  "entries c = map snd (container c)"

definition index_of :: "('k, 'v) node list \<Rightarrow> ('k \<rightharpoonup> iterator)" where
  "index_of xs = map_of (map (\<lambda>n. (fst (snd n), Node (fst n))) xs)"

definition wf :: "('k, 'v) LRUCache \<Rightarrow> bool" where
  "wf c = (distinct (map fst (container c))
           \<and> distinct (map (\<lambda>n. fst (snd n)) (container c))
           \<and> lookupMap c = index_of (container c))"

text \<open>The nodes of a list that do not hold a given key.\<close>

definition others :: "'k \<Rightarrow> ('k, 'v) node list \<Rightarrow> ('k, 'v) node list" where
  "others key xs = filter (\<lambda>n. fst (snd n) \<noteq> key) xs"

text \<open>
  The invariant of section 3 of the specification: a well-formed cache that holds no more
  entries than its capacity.
\<close>

definition invar :: "('k, 'v) LRUCache \<Rightarrow> bool" where
  "invar c = (wf c \<and> size_c c \<le> max_size c)"

text \<open>A cache of capacity 2 that holds the keys 20 and 10, used to instantiate the theorems.\<close>

definition cache_ab :: "(nat, nat) LRUCache" where
  "cache_ab = \<lparr>max_size = 2, container = [(1, (20, 200)), (0, (10, 100))],
     lookupMap = [10 \<mapsto> Node 0, 20 \<mapsto> Node 1],
     cache_hits = 0, cache_misses = 0, update_count = 0, bounce_count = 0\<rparr>"

section \<open>Facts about the containers\<close>

lemma new_addr_greater: "n \<in> set xs \<Longrightarrow> fst n < new_addr xs"
  by (induction xs) auto

lemma new_addr_fresh: "new_addr xs \<notin> fst ` set xs"
  using new_addr_greater by fastforce

lemma index_of_Nil [simp]: "index_of [] = Map.empty"
  by (simp add: index_of_def)

lemma index_of_Cons [simp]: "index_of (n # xs) = (index_of xs)(fst (snd n) \<mapsto> Node (fst n))"
  by (simp add: index_of_def)

lemma index_of_None: "index_of xs k = None \<longleftrightarrow> k \<notin> fst ` snd ` set xs"
  by (induction xs) auto

lemma dom_index_of: "dom (index_of xs) = fst ` snd ` set xs"
  by (simp add: dom_def index_of_None)

lemma index_of_SomeD: "index_of xs k = Some it \<Longrightarrow> \<exists>p v. it = Node p \<and> (p, (k, v)) \<in> set xs"
  by (induction xs) (auto split: if_splits)

lemma index_of_filter_key: "index_of (filter (\<lambda>n. fst (snd n) \<noteq> k) xs) = (index_of xs)(k := None)"
  by (induction xs) auto

lemma filter_addr_eq_key:
  "distinct (map fst xs) \<Longrightarrow> distinct (map (\<lambda>n. fst (snd n)) xs) \<Longrightarrow> (p, (k, v)) \<in> set xs \<Longrightarrow>
   filter (\<lambda>n. fst n \<noteq> p) xs = filter (\<lambda>n. fst (snd n) \<noteq> k) xs"
proof (induction xs)
  case Nil then show ?case by simp
next
  case (Cons n xs)
  show ?case
  proof (cases "n = (p, (k, v))")
    case True
    with Cons.prems have "\<forall>m\<in>set xs. fst m \<noteq> p" "\<forall>m\<in>set xs. fst (snd m) \<noteq> k"
      by (auto simp: image_iff)
    then have "filter (\<lambda>n. fst n \<noteq> p) xs = xs" "filter (\<lambda>n. fst (snd n) \<noteq> k) xs = xs"
      by simp_all
    with True show ?thesis by simp
  next
    case False
    with Cons.prems have in_xs: "(p, (k, v)) \<in> set xs" by simp
    with Cons.prems have "fst n \<noteq> p" "fst (snd n) \<noteq> k" by (auto simp: image_iff)
    moreover from Cons in_xs
    have "filter (\<lambda>n. fst n \<noteq> p) xs = filter (\<lambda>n. fst (snd n) \<noteq> k) xs" by simp
    ultimately show ?thesis by simp
  qed
qed

lemma index_of_butlast:
  "distinct (map (\<lambda>n. fst (snd n)) xs) \<Longrightarrow> xs \<noteq> [] \<Longrightarrow>
   index_of (butlast xs) = (index_of xs)(fst (snd (last xs)) := None)"
proof (induction xs)
  case Nil then show ?case by simp
next
  case (Cons n xs)
  show ?case
  proof (cases "xs = []")
    case True then show ?thesis by (auto simp: fun_eq_iff)
  next
    case False
    from False have "last xs \<in> set xs" by simp
    with Cons.prems have neq: "fst (snd n) \<noteq> fst (snd (last xs))"
      by (auto simp: image_iff)
    from Cons.prems have "distinct (map (\<lambda>n. fst (snd n)) xs)" by simp
    note IH = Cons.IH [OF this False]
    show ?thesis
    proof (rule ext)
      fix a
      show "index_of (butlast (n # xs)) a = ((index_of (n # xs))(fst (snd (last (n # xs))) := None)) a"
        using False neq by (simp add: IH)
    qed
  qed
qed


lemma distinct_addr_push:
  "distinct (map fst xs) \<Longrightarrow> distinct (map fst ((new_addr xs, kv) # xs))"
  using new_addr_fresh [of xs] by simp

lemma wf_lookup_Some:
  assumes "wf c" and "lookupMap c key = Some it"
  shows "\<exists>p v. it = Node p \<and> (p, (key, v)) \<in> set (container c)
               \<and> map_of (container c) p = Some (key, v)"
proof -
  from assms have "index_of (container c) key = Some it" by (simp add: wf_def)
  then obtain p v where "it = Node p" and "(p, (key, v)) \<in> set (container c)"
    using index_of_SomeD by fastforce
  moreover from assms(1) have "distinct (map fst (container c))" by (simp add: wf_def)
  ultimately show ?thesis by auto
qed

lemma wf_erase_key:
  assumes "wf c" and "(p, (key, v)) \<in> set (container c)"
  shows "filter (\<lambda>n. fst n \<noteq> p) (container c) = filter (\<lambda>n. fst (snd n) \<noteq> key) (container c)"
  using assms by (intro filter_addr_eq_key [where v = v]) (simp_all add: wf_def entries_def)

lemma get_present:
  assumes "wf c" and "lookupMap c key = Some it"
  shows "\<exists>p v. it = Node p \<and> (p, (key, v)) \<in> set (container c) \<and>
           get key c = Inr (Node (new_addr (others key (container c))),
             c\<lparr>cache_hits := cache_hits c + 1,
               container := (new_addr (others key (container c)), (key, v)) # others key (container c),
               lookupMap := (lookupMap c)(key \<mapsto> Node (new_addr (others key (container c))))\<rparr>)"
proof -
  from wf_lookup_Some [OF assms] obtain p v where it: "it = Node p"
    and mem: "(p, (key, v)) \<in> set (container c)"
    and mo: "map_of (container c) p = Some (key, v)" by blast
  have "get key c = Inr (Node (new_addr (others key (container c))),
             c\<lparr>cache_hits := cache_hits c + 1,
               container := (new_addr (others key (container c)), (key, v)) # others key (container c),
               lookupMap := (lookupMap c)(key \<mapsto> Node (new_addr (others key (container c))))\<rparr>)"
    using assms(2) it mo wf_erase_key [OF assms(1) mem]
    by (simp add: get_def deref_def erase_def push_front_def begin_c_def list_begin_def others_def)
  with it mem show ?thesis by blast
qed

lemma put_present:
  assumes "wf c" and "lookupMap c key = Some it"
  shows "put key val c = Inr
             (c\<lparr>update_count := update_count c + 1,
               container := (new_addr (others key (container c)), (key, val)) # others key (container c),
               lookupMap := (lookupMap c)(key \<mapsto> Node (new_addr (others key (container c))))\<rparr>)"
proof -
  from wf_lookup_Some [OF assms] obtain p v where it: "it = Node p"
    and mem: "(p, (key, v)) \<in> set (container c)"
    and mo: "map_of (container c) p = Some (key, v)" by blast
  show ?thesis
    using assms(2) it mo wf_erase_key [OF assms(1) mem]
    by (simp add: put_def erase_def push_front_def begin_c_def list_begin_def others_def)
qed

lemma put_absent_room:
  assumes "lookupMap c key = None" and "size_c c \<noteq> max_size c"
  shows "put key val c = Inr
             (c\<lparr>container := (new_addr (container c), (key, val)) # container c,
               lookupMap := (lookupMap c)(key \<mapsto> Node (new_addr (container c)))\<rparr>)"
  using assms
  by (simp add: put_def push_front_def begin_c_def list_begin_def map_insert_def)

lemma put_absent_full:
  assumes "lookupMap c key = None" and "size_c c = max_size c" and "container c \<noteq> []"
  shows "put key val c = Inr
             (c\<lparr>bounce_count := bounce_count c + 1,
               container := (new_addr (butlast (container c)), (key, val)) # butlast (container c),
               lookupMap := (lookupMap c)(fst (snd (last (container c))) := None,
                                          key \<mapsto> Node (new_addr (butlast (container c))))\<rparr>)"
  using assms
  by (simp add: put_def push_front_def begin_c_def list_begin_def map_insert_def back_c_def
      list_back_def pop_back_def)

lemma put_absent_zero:
  assumes "lookupMap c key = None" and "size_c c = max_size c" and "container c = []"
  shows "put key val c = Inl EmptyContainer"
  using assms
  by (simp add: put_def back_c_def list_back_def)


lemma length_others:
  "distinct (map (\<lambda>n. fst (snd n)) xs) \<Longrightarrow> (p, (key, v)) \<in> set xs \<Longrightarrow>
   Suc (length (others key xs)) = length xs"
proof (induction xs)
  case Nil then show ?case by simp
next
  case (Cons n xs)
  show ?case
  proof (cases "fst (snd n) = key")
    case True
    with Cons.prems have "\<forall>m\<in>set xs. fst (snd m) \<noteq> key" by (auto simp: image_iff)
    then have "others key xs = xs" by (simp add: others_def)
    with True show ?thesis by (simp add: others_def)
  next
    case False
    with Cons.prems have "(p, (key, v)) \<in> set xs" by auto
    with Cons have "Suc (length (others key xs)) = length xs" by simp
    with False show ?thesis by (simp add: others_def)
  qed
qed

lemma index_of_others: "index_of (others key xs) = (index_of xs)(key := None)"
  by (simp add: others_def index_of_filter_key)

lemma wf_promote:
  assumes "wf c"
    and "container c' = (new_addr (others key (container c)), (key, v)) # others key (container c)"
    and "lookupMap c' = (lookupMap c)(key \<mapsto> Node (new_addr (others key (container c))))"
  shows "wf c'"
proof -
  let ?ys = "others key (container c)"
  from assms(1) have "distinct (map fst ?ys)"
    by (simp add: wf_def others_def distinct_map_filter)
  then have a: "distinct (map fst (container c'))"
    using assms(2) distinct_addr_push [of ?ys] by simp
  from assms(1) have "distinct (map (\<lambda>n. fst (snd n)) ?ys)"
    by (simp add: wf_def others_def distinct_map_filter)
  moreover have "key \<notin> (\<lambda>n. fst (snd n)) ` set ?ys" by (auto simp: others_def)
  ultimately have k: "distinct (map (\<lambda>n. fst (snd n)) (container c'))"
    using assms(2) by simp
  have "lookupMap c' = index_of (container c')"
    using assms by (simp add: wf_def index_of_others)
  with a k show ?thesis by (simp add: wf_def)
qed

lemma wf_insert:
  assumes "wf c" and "lookupMap c key = None"
    and "container c' = (new_addr (container c), (key, v)) # container c"
    and "lookupMap c' = (lookupMap c)(key \<mapsto> Node (new_addr (container c)))"
  shows "wf c'"
proof -
  from assms(1,2) have "key \<notin> (\<lambda>n. fst (snd n)) ` set (container c)"
    by (simp add: wf_def index_of_None image_image)
  with assms show ?thesis
    using distinct_addr_push [of "container c"] by (simp add: wf_def)
qed

lemma wf_pop_back:
  assumes "wf c" and "container c \<noteq> []"
    and "container c' = butlast (container c)"
    and "lookupMap c' = (lookupMap c)(fst (snd (last (container c))) := None)"
  shows "wf c'"
  using assms by (simp add: wf_def index_of_butlast distinct_butlast map_butlast)


lemma get_absent:
  "lookupMap c key = None \<Longrightarrow> get key c = Inr (End, c\<lparr>cache_misses := cache_misses c + 1\<rparr>)"
  by (simp add: get_def end_c_def)

lemma get_inv:
  assumes "invar c" and "get key c = Inr (it, c')"
  shows "invar c' \<and> max_size c' = max_size c"
proof (cases "lookupMap c key")
  case None
  with assms show ?thesis by (auto simp: get_absent invar_def wf_def size_c_def)
next
  case (Some pos)
  from assms(1) have w: "wf c" by (simp add: invar_def)
  from get_present [OF w Some] assms(2) obtain p v where mem: "(p, (key, v)) \<in> set (container c)"
    and c': "c' = c\<lparr>cache_hits := cache_hits c + 1,
               container := (new_addr (others key (container c)), (key, v)) # others key (container c),
               lookupMap := (lookupMap c)(key \<mapsto> Node (new_addr (others key (container c))))\<rparr>"
    by auto
  from c' have "wf c'" by (intro wf_promote [OF w, where key = key and v = v]) simp_all
  moreover from w mem have "Suc (length (others key (container c))) = length (container c)"
    by (intro length_others) (simp_all add: wf_def)
  with c' assms(1) have "size_c c' \<le> max_size c'" "max_size c' = max_size c"
    by (simp_all add: invar_def size_c_def)
  ultimately show ?thesis by (simp add: invar_def)
qed

lemma get_total:
  assumes "wf c"
  shows "\<exists>it c'. get key c = Inr (it, c')"
proof (cases "lookupMap c key")
  case None
  then show ?thesis by (simp add: get_absent)
next
  case (Some pos)
  from get_present [OF assms Some] show ?thesis by blast
qed

lemma put_inv:
  assumes "invar c" and "put key val c = Inr c'"
  shows "invar c' \<and> max_size c' = max_size c"
proof (cases "lookupMap c key")
  case (Some pos)
  from assms(1) have w: "wf c" by (simp add: invar_def)
  from wf_lookup_Some [OF w Some] obtain p v where mem: "(p, (key, v)) \<in> set (container c)"
    by blast
  from put_present [OF w Some, of val] assms(2)
  have c': "c' = c\<lparr>update_count := update_count c + 1,
               container := (new_addr (others key (container c)), (key, val)) # others key (container c),
               lookupMap := (lookupMap c)(key \<mapsto> Node (new_addr (others key (container c))))\<rparr>"
    by simp
  from c' have "wf c'" by (intro wf_promote [OF w, where key = key and v = val]) simp_all
  moreover from w mem have "Suc (length (others key (container c))) = length (container c)"
    by (intro length_others) (simp_all add: wf_def)
  with c' assms(1) have "size_c c' \<le> max_size c'" "max_size c' = max_size c"
    by (simp_all add: invar_def size_c_def)
  ultimately show ?thesis by (simp add: invar_def)
next
  case None
  from assms(1) have w: "wf c" and le: "size_c c \<le> max_size c" by (simp_all add: invar_def)
  show ?thesis
  proof (cases "size_c c = max_size c")
    case False
    from put_absent_room [OF None False, of val] assms(2)
    have c': "c' = c\<lparr>container := (new_addr (container c), (key, val)) # container c,
               lookupMap := (lookupMap c)(key \<mapsto> Node (new_addr (container c)))\<rparr>"
      by simp
    from c' have "wf c'" by (intro wf_insert [OF w None, where v = val]) simp_all
    moreover from c' le False have "size_c c' \<le> max_size c'" "max_size c' = max_size c"
      by (simp_all add: size_c_def)
    ultimately show ?thesis by (simp add: invar_def)
  next
    case True
    show ?thesis
    proof (cases "container c = []")
      case True
      with put_absent_zero [OF None \<open>size_c c = max_size c\<close> True, of val] assms(2)
      show ?thesis by simp
    next
      case False
      let ?d = "c\<lparr>container := butlast (container c),
                   lookupMap := (lookupMap c)(fst (snd (last (container c))) := None)\<rparr>"
      from put_absent_full [OF None True False, of val] assms(2)
      have c': "c' = c\<lparr>bounce_count := bounce_count c + 1,
               container := (new_addr (butlast (container c)), (key, val)) # butlast (container c),
               lookupMap := (lookupMap c)(fst (snd (last (container c))) := None,
                                          key \<mapsto> Node (new_addr (butlast (container c))))\<rparr>"
        by simp
      have wd: "wf ?d" by (rule wf_pop_back [OF w False]) simp_all
      from None have nd: "lookupMap ?d key = None" by simp
      have "wf c'" by (rule wf_insert [OF wd nd, where v = val]) (simp_all add: c')
      moreover from True False have "0 < max_size c"
        by (cases "container c") (auto simp: size_c_def)
      with c' True have "size_c c' \<le> max_size c'" "max_size c' = max_size c"
        by (simp_all add: size_c_def)
      ultimately show ?thesis by (simp add: invar_def)
    qed
  qed
qed

lemma put_total:
  assumes "wf c" and "0 < max_size c"
  shows "\<exists>c'. put key val c = Inr c'"
proof (cases "lookupMap c key")
  case (Some pos)
  from put_present [OF assms(1) Some] show ?thesis by blast
next
  case None
  show ?thesis
  proof (cases "size_c c = max_size c")
    case False
    from put_absent_room [OF None False] show ?thesis by blast
  next
    case True
    with assms(2) have "container c \<noteq> []" by (auto simp: size_c_def)
    from put_absent_full [OF None True this] show ?thesis by blast
  qed
qed

lemma clear_inv: "invar (clear c) \<and> max_size (clear c) = max_size c"
  by (simp add: invar_def wf_def clear_def size_c_def)

lemma step_inv:
  assumes "invar c" and "step x c = Inr (r, c')"
  shows "invar c' \<and> max_size c' = max_size c"
proof (cases x)
  case (Get key)
  with assms(2) obtain it where "get key c = Inr (it, c')" by (auto split: sum.splits)
  with assms(1) show ?thesis by (rule get_inv)
next
  case (Put key val)
  with assms(2) have "put key val c = Inr c'" by (auto split: sum.splits)
  with assms(1) show ?thesis by (rule put_inv)
next
  case Clear
  with assms(2) show ?thesis using clear_inv [of c] by auto
qed (use assms in auto)

lemma step_total:
  assumes "wf c" and "0 < max_size c"
  shows "\<exists>r c'. step x c = Inr (r, c')"
proof (cases x)
  case (Get key)
  with get_total [OF assms(1), of key] show ?thesis by auto
next
  case (Put key val)
  with put_total [OF assms, of key val] show ?thesis by auto
qed simp_all

lemma run_inv:
  "invar c \<Longrightarrow> run xs c = Inr (rs, c') \<Longrightarrow> invar c' \<and> max_size c' = max_size c"
proof (induction xs arbitrary: c rs)
  case Nil
  then show ?case by simp
next
  case (Cons x xs)
  from Cons.prems(2) obtain r d rs' where s: "step x c = Inr (r, d)"
    and t: "run xs d = Inr (rs', c')"
    by (auto split: sum.splits)
  from step_inv [OF Cons.prems(1) s] have "invar d" and m: "max_size d = max_size c" by simp_all
  from Cons.IH [OF this(1) t] m show ?case by simp
qed

lemma run_total:
  "invar c \<Longrightarrow> 0 < max_size c \<Longrightarrow> \<exists>rs c'. run xs c = Inr (rs, c')"
proof (induction xs arbitrary: c)
  case Nil
  then show ?case by simp
next
  case (Cons x xs)
  from Cons.prems have "wf c" by (simp add: invar_def)
  from step_total [OF this Cons.prems(2), of x] obtain r d where s: "step x c = Inr (r, d)"
    by blast
  from step_inv [OF Cons.prems(1) s] have "invar d" and "max_size d = max_size c" by simp_all
  with Cons.IH [of d] Cons.prems(2) obtain rs c' where "run xs d = Inr (rs, c')" by auto
  with s show ?case by simp
qed

lemma invar_LRUCache: "invar (LRUCache n)"
  by (simp add: invar_def wf_def LRUCache_def size_c_def)

lemma entries_promote:
  "map snd (others key xs) = filter (\<lambda>e. fst e \<noteq> key) (map snd xs)"
  by (simp add: others_def filter_map comp_def)

section \<open>Lookup and promotion: get\<close>

text \<open>
  Claim C5. A \<open>get\<close> of a key that is not in the cache returns the past-the-end
  iterator and adds one to the miss counter (a 64-bit \<^verbatim>\<open>++\<close>); the list, the lookup
  map, the size, the capacity and the other three counters stay as they were.
\<close>

theorem get_absent_miss:
  assumes "\<not> is_cached key c"
  shows "\<exists>c'. get key c = Inr (end_c c, c') \<and> cache_misses c' = cache_misses c + 1
           \<and> container c' = container c \<and> lookupMap c' = lookupMap c
           \<and> size_c c' = size_c c \<and> max_size c' = max_size c
           \<and> cache_hits c' = cache_hits c \<and> update_count c' = update_count c
           \<and> bounce_count c' = bounce_count c"
  using assms by (simp add: is_cached_def get_def size_c_def)

theorem get_absent_miss_witness:
  "\<not> is_cached (1::nat) (LRUCache 2 :: (nat, nat) LRUCache) \<and>
   (\<exists>c'. get 1 (LRUCache 2 :: (nat, nat) LRUCache) = Inr (end_c (LRUCache 2 :: (nat, nat) LRUCache), c')
      \<and> cache_misses c' = cache_misses (LRUCache 2 :: (nat, nat) LRUCache) + 1
      \<and> container c' = container (LRUCache 2 :: (nat, nat) LRUCache)
      \<and> lookupMap c' = lookupMap (LRUCache 2 :: (nat, nat) LRUCache)
      \<and> size_c c' = size_c (LRUCache 2 :: (nat, nat) LRUCache)
      \<and> max_size c' = max_size (LRUCache 2 :: (nat, nat) LRUCache)
      \<and> cache_hits c' = cache_hits (LRUCache 2 :: (nat, nat) LRUCache)
      \<and> update_count c' = update_count (LRUCache 2 :: (nat, nat) LRUCache)
      \<and> bounce_count c' = bounce_count (LRUCache 2 :: (nat, nat) LRUCache))"
proof -
  have h: "\<not> is_cached (1::nat) (LRUCache 2 :: (nat, nat) LRUCache)"
    by (simp add: is_cached_def LRUCache_def)
  from h get_absent_miss [OF h] show ?thesis by blast
qed

text \<open>
  Claim C4. In a well-formed cache, a \<open>get\<close> of a key that is present adds one to the
  hit counter, moves the entry of that key to the front with the value it had, leaves the
  other entries in their order, stores the new position in the lookup map and returns
  it: the returned iterator is \<open>begin\<close>, it refers to the entry of the key, and
  \<open>front\<close> is that entry. Size, capacity and the other counters are unchanged.
\<close>

theorem get_present_hit:
  assumes "wf c" and "is_cached key c"
  shows "\<exists>v c'. deref (peek key c) (container c) = Inr (key, v)
           \<and> get key c = Inr (begin_c c', c')
           \<and> cache_hits c' = cache_hits c + 1
           \<and> entries c' = (key, v) # filter (\<lambda>e. fst e \<noteq> key) (entries c)
           \<and> front_c c' = Inr (key, v)
           \<and> deref (begin_c c') (container c') = Inr (key, v)
           \<and> lookupMap c' = (lookupMap c)(key \<mapsto> begin_c c')
           \<and> size_c c' = size_c c \<and> max_size c' = max_size c
           \<and> cache_misses c' = cache_misses c \<and> update_count c' = update_count c
           \<and> bounce_count c' = bounce_count c"
proof -
  from assms(2) obtain pos where pos: "lookupMap c key = Some pos"
    by (auto simp: is_cached_def)
  let ?ys = "others key (container c)"
  from get_present [OF assms(1) pos] obtain p v where it: "pos = Node p"
    and mem: "(p, (key, v)) \<in> set (container c)"
    and g: "get key c = Inr (Node (new_addr ?ys),
             c\<lparr>cache_hits := cache_hits c + 1,
               container := (new_addr ?ys, (key, v)) # ?ys,
               lookupMap := (lookupMap c)(key \<mapsto> Node (new_addr ?ys))\<rparr>)"
    by blast
  let ?c' = "c\<lparr>cache_hits := cache_hits c + 1,
               container := (new_addr ?ys, (key, v)) # ?ys,
               lookupMap := (lookupMap c)(key \<mapsto> Node (new_addr ?ys))\<rparr>"
  from assms(1) mem have "map_of (container c) p = Some (key, v)" by (simp add: wf_def)
  with pos it have 1: "deref (peek key c) (container c) = Inr (key, v)"
    by (simp add: peek_def deref_def)
  have b: "begin_c ?c' = Node (new_addr ?ys)" by (simp add: begin_c_def list_begin_def)
  with g have 2: "get key c = Inr (begin_c ?c', ?c')" by simp
  have 3: "cache_hits ?c' = cache_hits c + 1" by simp
  have 4: "entries ?c' = (key, v) # filter (\<lambda>e. fst e \<noteq> key) (entries c)"
    by (simp add: entries_def entries_promote)
  have 5: "front_c ?c' = Inr (key, v)" by (simp add: front_c_def list_front_def)
  have 6: "deref (begin_c ?c') (container ?c') = Inr (key, v)"
    by (simp add: b deref_def)
  have 7: "lookupMap ?c' = (lookupMap c)(key \<mapsto> begin_c ?c')" by (simp add: b)
  from assms(1) mem have "Suc (length ?ys) = length (container c)"
    by (intro length_others) (simp_all add: wf_def)
  then have 8: "size_c ?c' = size_c c" by (simp add: size_c_def)
  have 9: "max_size ?c' = max_size c \<and> cache_misses ?c' = cache_misses c
      \<and> update_count ?c' = update_count c \<and> bounce_count ?c' = bounce_count c" by simp
  from 1 2 3 4 5 6 7 8 9 show ?thesis by blast
qed

theorem get_present_hit_witness:
  "wf cache_ab \<and> is_cached 10 cache_ab \<and>
   (\<exists>v c'. deref (peek 10 cache_ab) (container cache_ab) = Inr (10, v)
           \<and> get 10 cache_ab = Inr (begin_c c', c')
           \<and> cache_hits c' = cache_hits cache_ab + 1
           \<and> entries c' = (10, v) # filter (\<lambda>e. fst e \<noteq> 10) (entries cache_ab)
           \<and> front_c c' = Inr (10, v)
           \<and> deref (begin_c c') (container c') = Inr (10, v)
           \<and> lookupMap c' = (lookupMap cache_ab)(10 \<mapsto> begin_c c')
           \<and> size_c c' = size_c cache_ab \<and> max_size c' = max_size cache_ab
           \<and> cache_misses c' = cache_misses cache_ab \<and> update_count c' = update_count cache_ab
           \<and> bounce_count c' = bounce_count cache_ab)"
proof -
  have h1: "wf cache_ab" by (simp add: wf_def cache_ab_def index_of_def)
  have h2: "is_cached 10 cache_ab" by (simp add: is_cached_def cache_ab_def)
  from h1 h2 get_present_hit [OF h1 h2] show ?thesis by blast
qed

section \<open>Insertion and update: put\<close>

text \<open>
  Claim C6. In a well-formed cache, a \<open>put\<close> of a key that is present adds one to the
  update counter, removes the old entry of the key and inserts the new pair at the front;
  the other entries keep their order, no key leaves the lookup map, and the size and the
  bounce counter are unchanged: nothing is evicted.
\<close>

theorem put_present_update:
  assumes "wf c" and "is_cached key c"
  shows "\<exists>c'. put key val c = Inr c'
           \<and> update_count c' = update_count c + 1
           \<and> entries c' = (key, val) # filter (\<lambda>e. fst e \<noteq> key) (entries c)
           \<and> front_c c' = Inr (key, val)
           \<and> lookupMap c' = (lookupMap c)(key \<mapsto> begin_c c')
           \<and> dom (lookupMap c') = dom (lookupMap c)
           \<and> size_c c' = size_c c \<and> max_size c' = max_size c
           \<and> bounce_count c' = bounce_count c
           \<and> cache_hits c' = cache_hits c \<and> cache_misses c' = cache_misses c"
proof -
  from assms(2) obtain pos where pos: "lookupMap c key = Some pos"
    by (auto simp: is_cached_def)
  let ?ys = "others key (container c)"
  let ?c' = "c\<lparr>update_count := update_count c + 1,
               container := (new_addr ?ys, (key, val)) # ?ys,
               lookupMap := (lookupMap c)(key \<mapsto> Node (new_addr ?ys))\<rparr>"
  from wf_lookup_Some [OF assms(1) pos] obtain p v where
    mem: "(p, (key, v)) \<in> set (container c)" by blast
  have 1: "put key val c = Inr ?c'" by (rule put_present [OF assms(1) pos])
  have b: "begin_c ?c' = Node (new_addr ?ys)" by (simp add: begin_c_def list_begin_def)
  have 2: "update_count ?c' = update_count c + 1" by simp
  have 3: "entries ?c' = (key, val) # filter (\<lambda>e. fst e \<noteq> key) (entries c)"
    by (simp add: entries_def entries_promote)
  have 4: "front_c ?c' = Inr (key, val)" by (simp add: front_c_def list_front_def)
  have 5: "lookupMap ?c' = (lookupMap c)(key \<mapsto> begin_c ?c')" by (simp add: b)
  from pos have 6: "dom (lookupMap ?c') = dom (lookupMap c)" by (auto simp: dom_def)
  from assms(1) mem have "Suc (length ?ys) = length (container c)"
    by (intro length_others) (simp_all add: wf_def)
  then have 7: "size_c ?c' = size_c c" by (simp add: size_c_def)
  have 8: "max_size ?c' = max_size c \<and> bounce_count ?c' = bounce_count c
      \<and> cache_hits ?c' = cache_hits c \<and> cache_misses ?c' = cache_misses c" by simp
  from 1 2 3 4 5 6 7 8 show ?thesis by blast
qed

theorem put_present_update_witness:
  "wf cache_ab \<and> is_cached 10 cache_ab \<and>
   (\<exists>c'. put 10 7 cache_ab = Inr c'
           \<and> update_count c' = update_count cache_ab + 1
           \<and> entries c' = (10, 7) # filter (\<lambda>e. fst e \<noteq> 10) (entries cache_ab)
           \<and> front_c c' = Inr (10, 7)
           \<and> lookupMap c' = (lookupMap cache_ab)(10 \<mapsto> begin_c c')
           \<and> dom (lookupMap c') = dom (lookupMap cache_ab)
           \<and> size_c c' = size_c cache_ab \<and> max_size c' = max_size cache_ab
           \<and> bounce_count c' = bounce_count cache_ab
           \<and> cache_hits c' = cache_hits cache_ab \<and> cache_misses c' = cache_misses cache_ab)"
proof -
  have h1: "wf cache_ab" by (simp add: wf_def cache_ab_def index_of_def)
  have h2: "is_cached 10 cache_ab" by (simp add: is_cached_def cache_ab_def)
  from h1 h2 put_present_update [OF h1 h2, of 7] show ?thesis by blast
qed

section \<open>clear\<close>

text \<open>
  Claim C9. After \<open>clear\<close> the cache holds no entry: its size is 0 and no key is cached,
  whatever was there before. The capacity and the four counters keep their values.
\<close>

theorem clear_empties:
  "step Clear c = Inr (RVoid, clear c)
   \<and> size_c (clear c) = 0 \<and> empty_c (clear c) \<and> entries (clear c) = []
   \<and> is_cached key (clear c) = False
   \<and> max_size (clear c) = max_size c
   \<and> cache_hits (clear c) = cache_hits c \<and> cache_misses (clear c) = cache_misses c
   \<and> update_count (clear c) = update_count c \<and> bounce_count (clear c) = bounce_count c"
  by (simp add: clear_def size_c_def empty_c_def entries_def is_cached_def)

section \<open>The lookups that do not mutate: peek and is_cached\<close>

lemma run_append_query:
  "is_query x \<Longrightarrow> map_sum id snd (run (x # xs) c) = map_sum id snd (run xs c)"
  by (cases x) (auto split: sum.splits)

lemma run_drop_queries:
  "map_sum id snd (run xs c) = map_sum id snd (run (filter (\<lambda>x. \<not> is_query x) xs) c)"
proof (induction xs arbitrary: c)
  case Nil
  show ?case by simp
next
  case (Cons x xs)
  show ?case
  proof (cases "is_query x")
    case True
    with Cons [of c] show ?thesis by (simp only: run_append_query filter.simps) simp
  next
    case False
    show ?thesis
    proof (cases "step x c")
      case (Inl e)
      with False show ?thesis by simp
    next
      case (Inr rc)
      obtain r d where rc: "rc = (r, d)" by (cases rc)
      from Cons [of d] Inr rc False show ?thesis
        by (cases "run xs d"; cases "run (filter (\<lambda>x. \<not> is_query x) xs) d") auto
    qed
  qed
qed

text \<open>
  Claim C7. \<open>peek\<close> and \<open>is_cached\<close> leave the whole object as it is: list, lookup
  map, size and the four counters. Hence a run of calls ends in the same state (or the
  same error) as the run without its \<open>peek\<close> and \<open>is_cached\<close> calls, so \<open>front\<close>,
  \<open>back\<close> and the order of traversal are the same too.
\<close>

theorem peek_is_cached_pure:
  "step (Peek key) c = Inr (RIter (peek key c), c)
   \<and> step (Is_cached key) c = Inr (RBool (is_cached key c), c)
   \<and> map_sum id snd (run xs c) = map_sum id snd (run (filter (\<lambda>x. \<not> is_query x) xs) c)"
  using run_drop_queries [of xs c] by simp

section \<open>The two source files agree\<close>

lemma forget_stats_simps [simp]:
  "max_size_p0 (forget_stats c) = max_size c"
  "container_p0 (forget_stats c) = container c"
  "lookupMap_p0 (forget_stats c) = lookupMap c"
  by (simp_all add: forget_stats_def)

lemma get_p0_forget:
  "get_p0 key (forget_stats c) = map_sum id (map_prod id forget_stats) (get key c)"
  by (simp add: get_p0_def get_def end_p0_def end_c_def begin_p0_def begin_c_def Let_def
      forget_stats_def split: option.splits sum.splits)

lemma put_p0_forget:
  "put_p0 key val (forget_stats c) = map_sum id forget_stats (put key val c)"
  by (simp add: put_p0_def put_def begin_p0_def begin_c_def size_p0_def size_c_def back_p0_def
      back_c_def list_back_def pop_back_def Let_def forget_stats_def
      split: option.splits sum.splits)

lemma step_p0_forget:
  "step_p0 x (forget_stats c) = map_sum id (map_prod id forget_stats) (step x c)"
proof (cases x)
  case (Get key)
  then show ?thesis by (simp add: get_p0_forget split: sum.splits)
next
  case (Put key val)
  then show ?thesis by (simp add: put_p0_forget split: sum.splits)
next
  case (Peek key)
  then show ?thesis by (simp add: peek_p0_def peek_def end_p0_def end_c_def split: option.splits)
next
  case (Is_cached key)
  then show ?thesis by (simp add: is_cached_p0_def is_cached_def)
next
  case Clear
  then show ?thesis by (simp add: clear_p0_def clear_def forget_stats_def)
qed

lemma run_p0_forget:
  "run_p0 xs (forget_stats c) = map_sum id (map_prod id forget_stats) (run xs c)"
proof (induction xs arbitrary: c)
  case Nil
  show ?case by simp
next
  case (Cons x xs)
  show ?case
  proof (cases "step x c")
    case (Inl e)
    then show ?thesis using step_p0_forget [of x c] by simp
  next
    case (Inr rc)
    obtain r d where rc: "rc = (r, d)" by (cases rc)
    with Inr step_p0_forget [of x c] have "step_p0 x (forget_stats c) = Inr (r, forget_stats d)"
      by simp
    with Inr rc Cons [of d] show ?thesis by (cases "run xs d") auto
  qed
qed

text \<open>
  Claim C10. The class with statistics and the class without them behave alike once the
  counters are forgotten: from caches of the same capacity, every list of calls gives
  the same return values, the same list of nodes in the same order and the same lookup
  map, or the same error, in both.
\<close>

theorem stats_free_equivalent:
  "forget_stats (LRUCache n) = LRUCache_p0 n
   \<and> run_p0 xs (forget_stats c) = map_sum id (map_prod id forget_stats) (run xs c)"
  by (simp add: run_p0_forget) (simp add: forget_stats_def LRUCache_def LRUCache_p0_def)

section \<open>Capacity zero\<close>

text \<open>
  Claim C8. The specification has a cache of capacity 0 retain nothing: after a \<open>put\<close>
  its size is 0. The code compares the size of the empty list with the capacity, finds
  them equal, and calls \<^verbatim>\<open>back()\<close> and \<^verbatim>\<open>pop_back()\<close> on the empty list, which is
  undefined behaviour, before it inserts the pair: the call does not yield an empty cache.
\<close>

theorem put_capacity_zero:
  "put (1::int) (1::int) (LRUCache 0) = Inl EmptyContainer"
  by (simp add: put_def LRUCache_def size_c_def back_c_def list_back_def)

text \<open>
  Claim C2. The bound of the size by the capacity is claimed for every capacity, 0
  included. The first \<open>put\<close> on a cache of capacity 0 has undefined behaviour, so the
  run below yields no state in which the bound could hold.
\<close>

theorem size_bound_capacity_zero:
  "run [Put (1::int) (1::int)] (LRUCache 0) = Inl EmptyContainer"
  by (simp add: put_def LRUCache_def size_c_def back_c_def list_back_def)

section \<open>Eviction of the least recently used entry\<close>

lemma take_append_take: "take n (xs @ take n ys) = take n (xs @ ys)"
  by (simp add: min_def)

lemma entries_put_absent:
  assumes "invar c" and "0 < max_size c" and "lookupMap c key = None"
  shows "\<exists>c'. put key val c = Inr c' \<and> invar c' \<and> max_size c' = max_size c
           \<and> entries c' = take (max_size c) ((key, val) # entries c)
           \<and> (\<forall>k. k \<noteq> key \<longrightarrow> lookupMap c k = None \<longrightarrow> lookupMap c' k = None)"
proof -
  from put_total [of c key val] assms obtain c' where p: "put key val c = Inr c'"
    by (auto simp: invar_def)
  from put_inv [OF assms(1) p] have i: "invar c'" and m: "max_size c' = max_size c" by simp_all
  have "entries c' = take (max_size c) ((key, val) # entries c)
           \<and> (\<forall>k. k \<noteq> key \<longrightarrow> lookupMap c k = None \<longrightarrow> lookupMap c' k = None)"
  proof (cases "size_c c = max_size c")
    case False
    from put_absent_room [OF assms(3) False, of val] p
    have c': "c' = c\<lparr>container := (new_addr (container c), (key, val)) # container c,
               lookupMap := (lookupMap c)(key \<mapsto> Node (new_addr (container c)))\<rparr>"
      by simp
    from False assms(1) have "length (container c) < max_size c"
      by (simp add: invar_def size_c_def)
    with c' show ?thesis by (cases "max_size c") (simp_all add: entries_def)
  next
    case True
    with assms(2) have ne: "container c \<noteq> []" by (auto simp: size_c_def)
    from put_absent_full [OF assms(3) True ne, of val] p
    have c': "c' = c\<lparr>bounce_count := bounce_count c + 1,
               container := (new_addr (butlast (container c)), (key, val)) # butlast (container c),
               lookupMap := (lookupMap c)(fst (snd (last (container c))) := None,
                                          key \<mapsto> Node (new_addr (butlast (container c))))\<rparr>"
      by simp
    from True have "length (container c) = max_size c" by (simp add: size_c_def)
    with c' assms(2) show ?thesis
      by (cases "max_size c") (simp_all add: entries_def butlast_conv_take map_butlast [symmetric] take_map)
  qed
  with p i m show ?thesis by blast
qed

lemma puts_absent:
  "invar c \<Longrightarrow> 0 < max_size c \<Longrightarrow> distinct (map fst kvs) \<Longrightarrow>
   set (map fst kvs) \<inter> dom (lookupMap c) = {} \<Longrightarrow>
   \<exists>c'. puts kvs c = Inr c' \<and> invar c' \<and> max_size c' = max_size c
        \<and> entries c' = take (max_size c) (rev kvs @ entries c)"
proof (induction kvs arbitrary: c)
  case Nil
  then show ?case by (simp add: invar_def size_c_def entries_def)
next
  case (Cons kv kvs)
  from Cons.prems(4) have absent: "lookupMap c (fst kv) = None" by auto
  from entries_put_absent [OF Cons.prems(1,2) absent, of "snd kv"] obtain d where
    p: "put (fst kv) (snd kv) c = Inr d" and i: "invar d" and m: "max_size d = max_size c"
    and e: "entries d = take (max_size c) (kv # entries c)"
    and f: "\<forall>k. k \<noteq> fst kv \<longrightarrow> lookupMap c k = None \<longrightarrow> lookupMap d k = None"
    by auto
  from Cons.prems(3) have dk: "distinct (map fst kvs)" and nk: "fst kv \<notin> set (map fst kvs)"
    by simp_all
  have "set (map fst kvs) \<inter> dom (lookupMap d) = {}"
  proof -
    have "lookupMap d (fst kv') = None" if "kv' \<in> set kvs" for kv'
    proof -
      from that nk have "fst kv' \<noteq> fst kv" by (auto simp: image_iff)
      moreover from that Cons.prems(4) have "lookupMap c (fst kv') = None" by auto
      ultimately show ?thesis using f by blast
    qed
    then show ?thesis by (auto simp: dom_def)
  qed
  from Cons.IH [OF i _ dk this] Cons.prems(2) m obtain c' where
    "puts kvs d = Inr c'" "invar c'" "max_size c' = max_size c"
    "entries c' = take (max_size c) (rev kvs @ entries d)"
    by auto
  with p e show ?case by (simp add: take_append_take)
qed


text \<open>
  Claim C1. Take a cache of capacity N, at least 1, that satisfies the invariant, and put
  N pairs with distinct keys that are not in it: the cache then holds exactly these
  pairs, the first one put at the back. A further put of a key that is not among them
  evicts that back entry and nothing else: the list is the new pair followed by the
  other N - 1 entries in their order, the lookup map loses the key of the evicted entry
  and gains the new key, and the bounce counter grows by one.
\<close>

theorem eviction_lru:
  assumes "invar c" and "max_size c = length kvs" and "kvs \<noteq> []"
    and "distinct (map fst kvs)" and "set (map fst kvs) \<inter> dom (lookupMap c) = {}"
    and "k' \<notin> set (map fst kvs)"
  shows "\<exists>c1 c2. puts kvs c = Inr c1 \<and> entries c1 = rev kvs \<and> back_c c1 = Inr (hd kvs)
           \<and> put k' v' c1 = Inr c2
           \<and> entries c2 = (k', v') # rev (tl kvs)
           \<and> lookupMap c2 = (lookupMap c1)(fst (hd kvs) := None, k' \<mapsto> begin_c c2)
           \<and> \<not> is_cached (fst (hd kvs)) c2
           \<and> dom (lookupMap c2) = insert k' (dom (lookupMap c1) - {fst (hd kvs)})
           \<and> bounce_count c2 = bounce_count c1 + 1
           \<and> size_c c2 = max_size c"
proof -
  from assms(2,3) have pos: "0 < max_size c" by simp
  from puts_absent [OF assms(1) pos assms(4,5)] assms(2) obtain c1 where
    p1: "puts kvs c = Inr c1" and i1: "invar c1" and m1: "max_size c1 = length kvs"
    and e1: "entries c1 = rev kvs"
    by auto
  let ?xs = "container c1"
  from e1 have len: "length ?xs = length kvs"
    by (metis entries_def length_map length_rev)
  with assms(3) have ne: "?xs \<noteq> []" by auto
  from len m1 have full: "size_c c1 = max_size c1" by (simp add: size_c_def)
  from e1 ne assms(3) have lst: "snd (last ?xs) = hd kvs"
    by (metis entries_def last_map last_rev)
  from i1 have w1: "wf c1" by (simp add: invar_def)
  have keys: "fst ` snd ` set ?xs = set (map fst kvs)"
    using e1 by (metis entries_def image_set list.set_map set_rev)
  with assms(6) w1 have absent: "lookupMap c1 k' = None"
    by (simp add: wf_def index_of_None)
  let ?c2 = "c1\<lparr>bounce_count := bounce_count c1 + 1,
               container := (new_addr (butlast ?xs), (k', v')) # butlast ?xs,
               lookupMap := (lookupMap c1)(fst (snd (last ?xs)) := None,
                                           k' \<mapsto> Node (new_addr (butlast ?xs)))\<rparr>"
  have 1: "put k' v' c1 = Inr ?c2" by (rule put_absent_full [OF absent full ne])
  have 2: "back_c c1 = Inr (hd kvs)" using ne lst by (simp add: back_c_def list_back_def)
  have "map snd (butlast ?xs) = butlast (rev kvs)"
    using e1 by (simp add: entries_def map_butlast)
  then have 3: "entries ?c2 = (k', v') # rev (tl kvs)"
    by (simp add: entries_def butlast_rev)
  have b: "begin_c ?c2 = Node (new_addr (butlast ?xs))" by (simp add: begin_c_def list_begin_def)
  have 4: "lookupMap ?c2 = (lookupMap c1)(fst (hd kvs) := None, k' \<mapsto> begin_c ?c2)"
    unfolding b by (simp add: lst)
  from assms(3,6) have "k' \<noteq> fst (hd kvs)" by (cases kvs) auto
  then have 5: "\<not> is_cached (fst (hd kvs)) ?c2" by (simp add: is_cached_def lst)
  have 6: "dom (lookupMap ?c2) = insert k' (dom (lookupMap c1) - {fst (hd kvs)})"
    by (simp add: lst)
  have 7: "bounce_count ?c2 = bounce_count c1 + 1" by simp
  from assms(3) have "0 < length kvs" by simp
  with len assms(2) have 8: "size_c ?c2 = max_size c" by (simp add: size_c_def)
  from p1 e1 1 2 3 4 5 6 7 8 show ?thesis by blast
qed

theorem eviction_lru_witness:
  "invar (LRUCache 2 :: (nat, nat) LRUCache)
   \<and> max_size (LRUCache 2 :: (nat, nat) LRUCache) = length [(1::nat, 10::nat), (2, 20)]
   \<and> [(1::nat, 10::nat), (2, 20)] \<noteq> []
   \<and> distinct (map fst [(1::nat, 10::nat), (2, 20)])
   \<and> set (map fst [(1::nat, 10::nat), (2, 20)]) \<inter> dom (lookupMap (LRUCache 2 :: (nat, nat) LRUCache)) = {}
   \<and> 3 \<notin> set (map fst [(1::nat, 10::nat), (2, 20)])
   \<and> (\<exists>c1 c2. puts [(1, 10), (2, 20)] (LRUCache 2 :: (nat, nat) LRUCache) = Inr c1
         \<and> entries c1 = [(2, 20), (1, 10)] \<and> back_c c1 = Inr (1, 10)
         \<and> put 3 30 c1 = Inr c2
         \<and> entries c2 = [(3, 30), (2, 20)]
         \<and> \<not> is_cached 1 c2
         \<and> dom (lookupMap c2) = insert 3 (dom (lookupMap c1) - {1})
         \<and> bounce_count c2 = bounce_count c1 + 1
         \<and> size_c c2 = 2)"
proof -
  let ?c = "LRUCache 2 :: (nat, nat) LRUCache"
  let ?kvs = "[(1::nat, 10::nat), (2, 20)]"
  have h1: "invar ?c" by (simp add: invar_def wf_def LRUCache_def size_c_def)
  have h2: "max_size ?c = length ?kvs" by (simp add: LRUCache_def)
  have h3: "?kvs \<noteq> []" by simp
  have h4: "distinct (map fst ?kvs)" by simp
  have h5: "set (map fst ?kvs) \<inter> dom (lookupMap ?c) = {}" by (simp add: LRUCache_def)
  have h6: "3 \<notin> set (map fst ?kvs)" by simp
  from eviction_lru [OF h1 h2 h3 h4 h5 h6, of 30] obtain c1 c2 where
    "puts ?kvs ?c = Inr c1" "entries c1 = rev ?kvs" "back_c c1 = Inr (hd ?kvs)"
    "put 3 30 c1 = Inr c2" "entries c2 = (3, 30) # rev (tl ?kvs)"
    "\<not> is_cached (fst (hd ?kvs)) c2"
    "dom (lookupMap c2) = insert 3 (dom (lookupMap c1) - {fst (hd ?kvs)})"
    "bounce_count c2 = bounce_count c1 + 1" "size_c c2 = max_size ?c"
    by blast
  then have "puts ?kvs ?c = Inr c1
         \<and> entries c1 = [(2, 20), (1, 10)] \<and> back_c c1 = Inr (1, 10)
         \<and> put 3 30 c1 = Inr c2
         \<and> entries c2 = [(3, 30), (2, 20)]
         \<and> \<not> is_cached 1 c2
         \<and> dom (lookupMap c2) = insert 3 (dom (lookupMap c1) - {1})
         \<and> bounce_count c2 = bounce_count c1 + 1
         \<and> size_c c2 = 2"
    by (simp add: LRUCache_def)
  with h1 h2 h3 h4 h5 h6 show ?thesis by blast
qed

section \<open>The index and the list stay consistent\<close>

lemma wf_consistent:
  assumes "wf c"
  shows "dom (lookupMap c) = set (map fst (entries c)) \<and> distinct (map fst (entries c))
         \<and> map (\<lambda>e. deref (peek (fst e) c) (container c)) (entries c) = map Inr (entries c)"
proof -
  from assms have 1: "dom (lookupMap c) = set (map fst (entries c))"
    by (simp add: wf_def dom_index_of entries_def image_image)
  from assms have 2: "distinct (map fst (entries c))"
    by (simp add: wf_def entries_def comp_def)
  have "deref (peek (fst (snd n)) c) (container c) = Inr (snd n)" if "n \<in> set (container c)" for n
  proof -
    obtain p k v where n: "n = (p, (k, v))" by (cases n) auto
    from that have "fst (snd n) \<in> fst ` snd ` set (container c)" by (intro imageI)
    with assms n have "lookupMap c k \<noteq> None"
      by (simp add: wf_def index_of_None)
    then obtain it where it: "lookupMap c k = Some it" by auto
    from wf_lookup_Some [OF assms it] obtain q w where q: "it = Node q"
      and qm: "(q, (k, w)) \<in> set (container c)"
      and mo: "map_of (container c) q = Some (k, w)" by blast
    from assms have "distinct (map (\<lambda>n. fst (snd n)) (container c))" by (simp add: wf_def)
    with that qm n have "w = v"
      by (metis (mono_tags, lifting) distinct_map fst_conv inj_onD snd_conv)
    with it q mo n show ?thesis by (simp add: peek_def deref_def)
  qed
  then have 3: "map (\<lambda>e. deref (peek (fst e) c) (container c)) (entries c) = map Inr (entries c)"
    by (simp add: entries_def)
  from 1 2 3 show ?thesis by blast
qed

text \<open>
  After a list of calls on a newly constructed cache, the keys of the lookup map are
  exactly the keys of the entries of the list, no key occurs twice in the list, and for
  every entry of the list the iterator stored under its key refers to that very entry.
  This holds after every call with defined behaviour, and when the capacity is at least
  1 every call has defined behaviour. (A list of calls contains all its prefixes, so the
  statement covers the state after each call.)
\<close>

lemma run_consistent:
  "(\<forall>rs c. run xs (LRUCache n) = Inr (rs, c) \<longrightarrow>
       dom (lookupMap c) = set (map fst (entries c)) \<and> distinct (map fst (entries c))
       \<and> map (\<lambda>e. deref (peek (fst e) c) (container c)) (entries c) = map Inr (entries c))
   \<and> (0 < n \<longrightarrow> (\<exists>rs c. run xs (LRUCache n) = Inr (rs, c)))"
proof (intro conjI allI impI)
  fix rs c
  assume "run xs (LRUCache n) = Inr (rs, c)"
  from run_inv [OF invar_LRUCache this] have w: "wf c" by (simp add: invar_def)
  from wf_consistent [OF w]
  show "dom (lookupMap c) = set (map fst (entries c))" "distinct (map fst (entries c))"
    "map (\<lambda>e. deref (peek (fst e) c) (container c)) (entries c) = map Inr (entries c)"
    by simp_all
next
  assume "0 < n"
  then have "0 < max_size (LRUCache n :: ('a, 'b) LRUCache)" by (simp add: LRUCache_def)
  from run_total [OF invar_LRUCache this] show "\<exists>rs c. run xs (LRUCache n) = Inr (rs, c)" .
qed

lemma run_consistent_example:
  "0 < (1::nat) \<and>
   (\<exists>rs c. run [Put (1::nat) (10::nat), Put 2 20, Get 2] (LRUCache 1) = Inr (rs, c)
      \<and> entries c = [(2, 20)]
      \<and> dom (lookupMap c) = set (map fst (entries c)) \<and> distinct (map fst (entries c))
      \<and> map (\<lambda>e. deref (peek (fst e) c) (container c)) (entries c) = map Inr (entries c))"
proof -
  let ?c = "\<lparr>max_size = 1, container = [(0, (2::nat, 20::nat))], lookupMap = [2 \<mapsto> Node 0],
         cache_hits = 1, cache_misses = 0, update_count = 0, bounce_count = 1\<rparr>"
  have r: "run [Put (1::nat) (10::nat), Put 2 20, Get 2] (LRUCache 1) =
      Inr ([RVoid, RVoid, RIter (Node 0)], ?c)"
    by (simp add: put_def get_def LRUCache_def size_c_def back_c_def list_back_def pop_back_def
        push_front_def begin_c_def list_begin_def map_insert_def deref_def erase_def)
  have e: "entries ?c = [(2, 20)]" by (simp add: entries_def)
  from run_consistent [of "[Put (1::nat) (10::nat), Put 2 20, Get 2]" 1] r
  have "dom (lookupMap ?c) = set (map fst (entries ?c)) \<and> distinct (map fst (entries ?c))
      \<and> map (\<lambda>e. deref (peek (fst e) ?c) (container ?c)) (entries ?c) = map Inr (entries ?c)"
    by blast
  with r e show ?thesis by blast
qed

text \<open>
  Claim C3. The consistency of the lookup map and the list is claimed after every call
  of every list of calls, whatever the capacity. The lemma above gives it for every
  capacity of at least 1. On a cache of capacity 0 a \<open>put\<close> finds the empty list as
  long as the capacity and calls \<^verbatim>\<open>back()\<close> and \<^verbatim>\<open>pop_back()\<close> on it, which is
  undefined behaviour: any list of calls that starts with a \<open>put\<close> yields no state in
  which the lookup map and the list could agree.
\<close>

theorem consistency_capacity_zero:
  "run (Put key val # xs) (LRUCache 0) = Inl EmptyContainer"
  by (simp add: put_def LRUCache_def size_c_def back_c_def list_back_def)

end
